theory Spec2Isabelle
  imports Main "HOL-Library.Sublist" "HOL-Library.AList" "HOL-Library.Word"
begin

section \<open>The file system that SyncFolders.cpp works on\<close>

text \<open>
  SyncFolders.cpp mirrors a source directory onto a replica directory through
  \<^verbatim>\<open>std::filesystem\<close>. The model is one file-system tree holding both roots: a node is a
  regular file with its bytes, a directory with its named children in the order the
  directory stores them, or an entry that exists but is neither (a socket, a device, a
  FIFO). A path is the list of names from the root of the file system.

  This tree has no symbolic links: every path names the entry itself. Links, and what
  the completion count and the staleness test do with them, come in a section of their
  own after the program. What the model leaves out altogether: permissions, time
  stamps, and changes made by other processes while a cycle runs.
  The log file is a list of its own, outside both trees, and can always be opened.
  The loop of \<^verbatim>\<open>main\<close>, with its signal handler and its sleep, is not part of the
  model; one cycle and the completion check after it are.
\<close>

type_synonym name = string
type_synonym path = "name list"
type_synonym bytes = string

datatype node = File bytes | Dir "(name \<times> node) list" | Other

fun lookup :: "node \<Rightarrow> path \<Rightarrow> node option" where
  "lookup n [] = Some n"
| "lookup (Dir cs) (x # p) = (case map_of cs x of None \<Rightarrow> None | Some c \<Rightarrow> lookup c p)"
| "lookup (File b) (x # p) = None"
| "lookup Other (x # p) = None"

text \<open>What \<^verbatim>\<open>fs::status\<close> sees of an entry: its kind, and for a file its bytes.\<close>

datatype entry = EFile bytes | EDir | EOther

fun entry_of :: "node \<Rightarrow> entry" where
  "entry_of (File b) = EFile b"
| "entry_of (Dir cs) = EDir"
| "entry_of Other = EOther"

definition stat :: "node \<Rightarrow> path \<Rightarrow> entry option" where
  "stat fs p = map_option entry_of (lookup fs p)"

text \<open>\<^verbatim>\<open>fs::exists\<close>, \<^verbatim>\<open>fs::is_regular_file\<close>, \<^verbatim>\<open>fs::is_directory\<close>.\<close>

definition exists_path :: "node \<Rightarrow> path \<Rightarrow> bool" where
  "exists_path fs p = (case stat fs p of None \<Rightarrow> False | Some e \<Rightarrow> True)"

definition is_regular_file :: "node \<Rightarrow> path \<Rightarrow> bool" where
  "is_regular_file fs p = (case stat fs p of Some (EFile b) \<Rightarrow> True | _ \<Rightarrow> False)"

definition is_directory :: "node \<Rightarrow> path \<Rightarrow> bool" where
  "is_directory fs p = (case stat fs p of Some EDir \<Rightarrow> True | _ \<Rightarrow> False)"

text \<open>
  A directory holds each name once. The operations below keep this, and the theorems
  assume it of the file system a cycle starts from.
\<close>

fun well_formed :: "node \<Rightarrow> bool" and well_formed_children :: "(name \<times> node) list \<Rightarrow> bool" where
  "well_formed (File b) = True"
| "well_formed Other = True"
| "well_formed (Dir cs) = well_formed_children cs"
| "well_formed_children [] = True"
| "well_formed_children ((x, c) # cs) = (x \<notin> fst ` set cs \<and> well_formed c \<and> well_formed_children cs)"

text \<open>
  \<^verbatim>\<open>fs::recursive_directory_iterator\<close>: every entry below a directory, a directory before
  its contents, each as its path relative to the directory iterated
  (\<^verbatim>\<open>fs::relative(path, root)\<close> in the loops). The model takes the whole sequence when
  the loop starts. For two roots that do not lie inside each other this is what the
  program sees: the loops over the source write to the replica only, and the loop over
  the replica removes nothing. For nested roots the C++ standard leaves open whether
  the iterator sees what the loop creates.
\<close>

fun entries :: "node \<Rightarrow> path list" and entries_children :: "(name \<times> node) list \<Rightarrow> path list" where
  "entries (File b) = []"
| "entries Other = []"
| "entries (Dir cs) = entries_children cs"
| "entries_children [] = []"
| "entries_children ((x, c) # cs) = [x] # map ((#) x) (entries c) @ entries_children cs"

datatype fs_error =
    IteratorError path
  | CreateDirectoryError path
  | CopyFileError path path
  | StatusError path

text \<open>The constructor of the iterator throws when the path is not a directory.\<close>

definition recursive_directory_iterator :: "node \<Rightarrow> path \<Rightarrow> fs_error + path list" where
  "recursive_directory_iterator fs root =
     (case lookup fs root of
        Some (Dir cs) \<Rightarrow> Inr (entries (Dir cs))
      | _ \<Rightarrow> Inl (IteratorError root))"

text \<open>
  Writing a node at a path and removing the node at a path. Both walk down from the
  root; writing needs the parent to be a directory, removing a path that is not there
  changes nothing. A new name goes to the end of its directory.
\<close>

fun set_child :: "path \<Rightarrow> node \<Rightarrow> node \<Rightarrow> node option" where
  "set_child [] n fs = None"
| "set_child [x] n (Dir cs) = Some (Dir (AList.update x n cs))"
| "set_child (x # y # p) n (Dir cs) =
     (case map_of cs x of
        None \<Rightarrow> None
      | Some c \<Rightarrow>
          (case set_child (y # p) n c of
             None \<Rightarrow> None
           | Some c' \<Rightarrow> Some (Dir (AList.update x c' cs))))"
| "set_child (x # p) n (File b) = None"
| "set_child (x # p) n Other = None"

fun remove_all :: "path \<Rightarrow> node \<Rightarrow> node" where
  "remove_all [] fs = fs"
| "remove_all [x] (Dir cs) = Dir (AList.delete x cs)"
| "remove_all (x # y # p) (Dir cs) =
     (case map_of cs x of
        None \<Rightarrow> Dir cs
      | Some c \<Rightarrow> Dir (AList.update x (remove_all (y # p) c) cs))"
| "remove_all (x # p) (File b) = File b"
| "remove_all (x # p) Other = Other"

text \<open>
  \<^verbatim>\<open>fs::create_directory(p)\<close> makes the one directory \<^verbatim>\<open>p\<close>: nothing happens when
  \<^verbatim>\<open>p\<close> is a directory already, and it throws when \<^verbatim>\<open>p\<close> is another kind of entry or
  when the parent of \<^verbatim>\<open>p\<close> is not a directory.
\<close>

definition create_directory :: "node \<Rightarrow> path \<Rightarrow> fs_error + node" where
  "create_directory fs p =
     (case stat fs p of
        Some EDir \<Rightarrow> Inr fs
      | Some e \<Rightarrow> Inl (CreateDirectoryError p)
      | None \<Rightarrow>
          (case set_child p (Dir []) fs of
             None \<Rightarrow> Inl (CreateDirectoryError p)
           | Some fs' \<Rightarrow> Inr fs'))"

text \<open>
  \<^verbatim>\<open>fs::copy_file(from, to, overwrite_existing)\<close>: \<^verbatim>\<open>from\<close> must be a regular file; an
  existing \<^verbatim>\<open>to\<close> must be a regular file other than \<^verbatim>\<open>from\<close> and gets the bytes of
  \<^verbatim>\<open>from\<close>; a missing \<^verbatim>\<open>to\<close> is created in its parent directory. Everything else throws.
\<close>

definition copy_file :: "node \<Rightarrow> path \<Rightarrow> path \<Rightarrow> fs_error + node" where
  "copy_file fs from to =
     (case stat fs from of
        Some (EFile b) \<Rightarrow>
          (case stat fs to of
             Some (EFile b') \<Rightarrow>
               (if from = to then Inl (CopyFileError from to)
                else (case set_child to (File b) fs of
                        None \<Rightarrow> Inl (CopyFileError from to)
                      | Some fs' \<Rightarrow> Inr fs'))
           | Some e \<Rightarrow> Inl (CopyFileError from to)
           | None \<Rightarrow>
               (case set_child to (File b) fs of
                  None \<Rightarrow> Inl (CopyFileError from to)
                | Some fs' \<Rightarrow> Inr fs'))
      | _ \<Rightarrow> Inl (CopyFileError from to))"

section \<open>The program\<close>

subsection \<open>The log and the state of a run\<close>

text \<open>
  \<^verbatim>\<open>logOperation\<close> appends one line to the log file. A line is kept as its message with
  the paths it names; the time stamp in front of it is left out. The program has one
  more piece of state, the flag \<^verbatim>\<open>changesMade\<close>.
\<close>

datatype log_line =
    CreatedReplicaDirectory path
  | CreatedDirectory path
  | CopiedFile path path
  | Removed path
  | FilesystemError fs_error
  | SourceDoesNotExist
  | SourceNotDirectory
  | SynchronizationComplete

record state =
  files :: node
  logged :: "log_line list"
  changesMade :: bool

definition logOperation :: "log_line \<Rightarrow> state \<Rightarrow> state" where
  "logOperation message s = s\<lparr>logged := logged s @ [message]\<rparr>"

text \<open>
  A range-\<^verbatim>\<open>for\<close> whose body may throw: the loop stops at the first exception, and what
  the earlier rounds did stays done. Every body below changes the state only after its
  one throwing call, so a round that throws leaves the state as it found it.
\<close>

fun for_each :: "('a \<Rightarrow> state \<Rightarrow> fs_error + state) \<Rightarrow> 'a list \<Rightarrow> state \<Rightarrow> fs_error option \<times> state" where
  "for_each body [] s = (None, s)"
| "for_each body (x # xs) s =
     (case body x s of
        Inl e \<Rightarrow> (Some e, s)
      | Inr s' \<Rightarrow> for_each body xs s')"

text \<open>The \<^verbatim>\<open>catch\<close> blocks of the three reconcilers: the exception is logged, nothing else.\<close>

definition catch_and_log :: "fs_error option \<times> state \<Rightarrow> state" where
  "catch_and_log r = (case r of (None, s) \<Rightarrow> s | (Some e, s) \<Rightarrow> logOperation (FilesystemError e) s)"

subsection \<open>computeFileHash\<close>

text \<open>
  \<^verbatim>\<open>computeFileHash\<close> opens the path with an \<^verbatim>\<open>ifstream\<close>, reads it into a buffer, hashes
  the buffer and prints the digest as lower-case hexadecimal, two digits a byte. It
  never looks at the state of the stream: a path that cannot be opened gives an empty
  buffer. That is so for a missing path everywhere. For a directory or a special entry
  the runtimes differ. With the Microsoft runtime the program is written for (it calls
  \<^verbatim>\<open>localtime_s\<close> with Microsoft's order of arguments) opening one fails, and the buffer
  is empty again; this is what \<open>read_buffer\<close> has. With libstdc++ a directory opens and
  reading it throws \<^verbatim>\<open>std::ios_base::failure\<close>, which the second \<^verbatim>\<open>catch\<close> of \<^verbatim>\<open>syncCopy\<close>
  logs, ending the loop the way a failing \<^verbatim>\<open>copy_file\<close> does, and reading a FIFO waits
  for a writer. The program passes \<^verbatim>\<open>&buffer[0]\<close> to \<^verbatim>\<open>SHA256\<close> also when the buffer is
  empty, which C++ leaves undefined; with a length of zero the function reads nothing
  from it. OpenSSL's \<^verbatim>\<open>SHA256\<close> is a parameter of the model, \<open>digest\<close>; every theorem
  holds for every function in its place.
\<close>

definition read_buffer :: "node \<Rightarrow> path \<Rightarrow> bytes" where
  "read_buffer fs p = (case stat fs p of Some (EFile b) \<Rightarrow> b | _ \<Rightarrow> [])"

definition SHA256_DIGEST_LENGTH :: nat where
  "SHA256_DIGEST_LENGTH = 32"

definition hex_digit :: "nat \<Rightarrow> char" where
  "hex_digit d = ''0123456789abcdef'' ! d"

definition hex_byte :: "8 word \<Rightarrow> string" where
  "hex_byte b = [hex_digit (unat b div 16), hex_digit (unat b mod 16)]"

definition computeFileHash :: "(bytes \<Rightarrow> 8 word list) \<Rightarrow> node \<Rightarrow> path \<Rightarrow> string" where
  "computeFileHash digest fs p =
     (let hash = digest (read_buffer fs p)
      in concat (map (\<lambda>i. hex_byte (hash ! i)) [0..<SHA256_DIGEST_LENGTH]))"

subsection \<open>syncCopy\<close>

definition syncCopy_entry ::
  "(bytes \<Rightarrow> 8 word list) \<Rightarrow> path \<Rightarrow> path \<Rightarrow> path \<Rightarrow> state \<Rightarrow> fs_error + state" where
  "syncCopy_entry digest source replica relativePath s =
     (let path = source @ relativePath; replicaPath = replica @ relativePath in
      if is_regular_file (files s) path then
        (let shouldCopy =
           (if \<not> exists_path (files s) replicaPath then True
            else computeFileHash digest (files s) path \<noteq> computeFileHash digest (files s) replicaPath)
         in if shouldCopy then
              (case copy_file (files s) path replicaPath of
                 Inl e \<Rightarrow> Inl e
               | Inr fs' \<Rightarrow>
                   Inr ((logOperation (CopiedFile path replicaPath) (s\<lparr>files := fs'\<rparr>))
                          \<lparr>changesMade := True\<rparr>))
            else Inr s)
      else Inr s)"

definition syncCopy :: "(bytes \<Rightarrow> 8 word list) \<Rightarrow> path \<Rightarrow> path \<Rightarrow> state \<Rightarrow> state" where
  "syncCopy digest source replica s =
     (case recursive_directory_iterator (files s) source of
        Inl e \<Rightarrow> logOperation (FilesystemError e) s
      | Inr rels \<Rightarrow> catch_and_log (for_each (syncCopy_entry digest source replica) rels s))"

subsection \<open>syncDelete\<close>

fun collect_stale :: "node \<Rightarrow> path \<Rightarrow> path \<Rightarrow> path list \<Rightarrow> path list \<Rightarrow> path list" where
  "collect_stale fs source replica [] filesToRemove = filesToRemove"
| "collect_stale fs source replica (relativePath # rels) filesToRemove =
     collect_stale fs source replica rels
       (if \<not> exists_path fs (source @ relativePath)
        then filesToRemove @ [replica @ relativePath]
        else filesToRemove)"

fun remove_each :: "path list \<Rightarrow> state \<Rightarrow> state" where
  "remove_each [] s = s"
| "remove_each (path # paths) s =
     remove_each paths
       ((logOperation (Removed path) (s\<lparr>files := remove_all path (files s)\<rparr>))
          \<lparr>changesMade := True\<rparr>)"

definition syncDelete :: "path \<Rightarrow> path \<Rightarrow> state \<Rightarrow> state" where
  "syncDelete source replica s =
     (case recursive_directory_iterator (files s) replica of
        Inl e \<Rightarrow> logOperation (FilesystemError e) s
      | Inr rels \<Rightarrow> remove_each (collect_stale (files s) source replica rels []) s)"

subsection \<open>syncSubdirectories\<close>

definition syncSubdirectories_entry :: "path \<Rightarrow> path \<Rightarrow> path \<Rightarrow> state \<Rightarrow> fs_error + state" where
  "syncSubdirectories_entry source replica relativePath s =
     (let path = source @ relativePath; replicaPath = replica @ relativePath in
      if is_directory (files s) path then
        (if \<not> exists_path (files s) replicaPath then
           (case create_directory (files s) replicaPath of
              Inl e \<Rightarrow> Inl e
            | Inr fs' \<Rightarrow>
                Inr ((logOperation (CreatedDirectory replicaPath) (s\<lparr>files := fs'\<rparr>))
                       \<lparr>changesMade := True\<rparr>))
         else Inr s)
      else Inr s)"

definition syncSubdirectories :: "path \<Rightarrow> path \<Rightarrow> state \<Rightarrow> state" where
  "syncSubdirectories source replica s =
     (case recursive_directory_iterator (files s) source of
        Inl e \<Rightarrow> logOperation (FilesystemError e) s
      | Inr rels \<Rightarrow> catch_and_log (for_each (syncSubdirectories_entry source replica) rels s))"

subsection \<open>syncFolders\<close>

definition ensure_replica :: "path \<Rightarrow> state \<Rightarrow> fs_error + state" where
  "ensure_replica replica s =
     (if \<not> exists_path (files s) replica then
        (case create_directory (files s) replica of
           Inl e \<Rightarrow> Inl e
         | Inr fs' \<Rightarrow>
             Inr ((logOperation (CreatedReplicaDirectory replica) (s\<lparr>files := fs'\<rparr>))
                    \<lparr>changesMade := True\<rparr>))
      else Inr s)"

definition syncFolders :: "(bytes \<Rightarrow> 8 word list) \<Rightarrow> path \<Rightarrow> path \<Rightarrow> state \<Rightarrow> state" where
  "syncFolders digest source replica s =
     (let s0 = s\<lparr>changesMade := False\<rparr> in
      case ensure_replica replica s0 of
        Inl e \<Rightarrow> logOperation (FilesystemError e) s0
      | Inr s1 \<Rightarrow>
          syncDelete source replica
            (syncCopy digest source replica
               (syncSubdirectories source replica s1)))"

subsection \<open>The completion check\<close>

definition isSourceValid :: "path \<Rightarrow> state \<Rightarrow> bool \<times> state" where
  "isSourceValid source s =
     (if \<not> exists_path (files s) source then (False, logOperation SourceDoesNotExist s)
      else if \<not> is_directory (files s) source then (False, logOperation SourceNotDirectory s)
      else (True, s))"

text \<open>
  \<^verbatim>\<open>countFilesAndDirectories\<close> has no \<^verbatim>\<open>try\<close>: when its argument is not a directory the
  exception of the iterator leaves the function, and \<^verbatim>\<open>checkSyncCompletion\<close> with it.
  The counter is a C++ \<^verbatim>\<open>int\<close>; the model counts in \<open>int\<close> without a bound, which is the
  same as long as a tree has fewer than \<open>2^31\<close> entries.
\<close>

fun count_loop :: "node \<Rightarrow> path \<Rightarrow> path list \<Rightarrow> int \<Rightarrow> int" where
  "count_loop fs directory [] count = count"
| "count_loop fs directory (relativePath # rels) count =
     count_loop fs directory rels
       (if is_regular_file fs (directory @ relativePath) \<or> is_directory fs (directory @ relativePath)
        then count + 1 else count)"

definition countFilesAndDirectories :: "node \<Rightarrow> path \<Rightarrow> fs_error + int" where
  "countFilesAndDirectories fs directory =
     (case recursive_directory_iterator fs directory of
        Inl e \<Rightarrow> Inl e
      | Inr rels \<Rightarrow> Inr (count_loop fs directory rels 0))"


section \<open>Symbolic links\<close>

text \<open>
  With symbolic links a path can name one entry and lead to another. \<^verbatim>\<open>fs::status\<close>, and
  with it \<^verbatim>\<open>fs::exists\<close>, \<^verbatim>\<open>fs::is_regular_file\<close> and \<^verbatim>\<open>fs::is_directory\<close>, follows links;
  the recursive iterator yields a link as an entry and does not go into it. A link is
  kept as a special entry of the tree together with its target, which is recorded under
  the path of the link; a special entry without a target is a socket, a device or a
  FIFO, as before. A target is a path from the root of the file system.

  Resolving a path walks it name by name, starting at the root, through directories
  only: \<^verbatim>\<open>.\<close> stays where it is, \<^verbatim>\<open>..\<close> goes to the parent (the root is its own parent),
  and a link is replaced by its target. The system follows a bounded number of links
  in one resolution, \<open>hops\<close> (\<^verbatim>\<open>SYMLOOP_MAX\<close>, 40 on Linux), and fails beyond it;
  \<^verbatim>\<open>fs::status\<close> then throws. A path that resolves gives the path without links of the
  entry it leads to.
\<close>

type_synonym targets = "path \<rightharpoonup> path"

datatype resolution = Found path | NotFound | TooManyLinks

function walk :: "nat \<Rightarrow> targets \<Rightarrow> node \<Rightarrow> path \<Rightarrow> path \<Rightarrow> resolution" where
  "walk hops tg fs at [] = Found at"
| "walk hops tg fs at (x # rest) =
     (if \<not> is_directory fs at then NotFound
      else if x = ''.'' then walk hops tg fs at rest
      else if x = ''..'' then walk hops tg fs (butlast at) rest
      else (case stat fs (at @ [x]) of
              None \<Rightarrow> NotFound
            | Some EOther \<Rightarrow>
                (case tg (at @ [x]) of
                   None \<Rightarrow> walk hops tg fs (at @ [x]) rest
                 | Some target \<Rightarrow>
                     if hops = 0 then TooManyLinks
                     else walk (hops - 1) tg fs [] (target @ rest))
            | Some e \<Rightarrow> walk hops tg fs (at @ [x]) rest))"
  by pat_completeness auto
termination
  by (relation "measures [\<lambda>(hops, tg, fs, at, p). hops, \<lambda>(hops, tg, fs, at, p). length p]") auto

definition fs_status :: "nat \<Rightarrow> targets \<Rightarrow> node \<Rightarrow> path \<Rightarrow> fs_error + entry option" where
  "fs_status hops tg fs p =
     (case walk hops tg fs [] p of
        Found c \<Rightarrow> Inr (stat fs c)
      | NotFound \<Rightarrow> Inr None
      | TooManyLinks \<Rightarrow> Inl (StatusError p))"

definition exists_links :: "nat \<Rightarrow> targets \<Rightarrow> node \<Rightarrow> path \<Rightarrow> fs_error + bool" where
  "exists_links hops tg fs p =
     (case fs_status hops tg fs p of
        Inl e \<Rightarrow> Inl e
      | Inr None \<Rightarrow> Inr False
      | Inr (Some e) \<Rightarrow> Inr True)"

definition is_regular_file_links :: "nat \<Rightarrow> targets \<Rightarrow> node \<Rightarrow> path \<Rightarrow> fs_error + bool" where
  "is_regular_file_links hops tg fs p =
     (case fs_status hops tg fs p of
        Inl e \<Rightarrow> Inl e
      | Inr (Some (EFile b)) \<Rightarrow> Inr True
      | Inr other \<Rightarrow> Inr False)"

definition is_directory_links :: "nat \<Rightarrow> targets \<Rightarrow> node \<Rightarrow> path \<Rightarrow> fs_error + bool" where
  "is_directory_links hops tg fs p =
     (case fs_status hops tg fs p of
        Inl e \<Rightarrow> Inl e
      | Inr (Some EDir) \<Rightarrow> Inr True
      | Inr other \<Rightarrow> Inr False)"

text \<open>
  The iterator opens the directory its argument leads to and yields what that
  directory holds. In the tree a link has no children, so the iterator does not go
  into one.
\<close>

definition recursive_directory_iterator_links ::
  "nat \<Rightarrow> targets \<Rightarrow> node \<Rightarrow> path \<Rightarrow> fs_error + path list" where
  "recursive_directory_iterator_links hops tg fs root =
     (case walk hops tg fs [] root of
        Found c \<Rightarrow>
          (case lookup fs c of
             Some (Dir cs) \<Rightarrow> Inr (entries (Dir cs))
           | _ \<Rightarrow> Inl (IteratorError root))
      | _ \<Rightarrow> Inl (IteratorError root))"

subsection \<open>countFilesAndDirectories with links\<close>

text \<open>
  The two tests of the loop follow links and may throw; \<^verbatim>\<open>||\<close> makes the second test
  only when the first is false.
\<close>

fun count_loop_links ::
  "nat \<Rightarrow> targets \<Rightarrow> node \<Rightarrow> path \<Rightarrow> path list \<Rightarrow> int \<Rightarrow> fs_error + int" where
  "count_loop_links hops tg fs directory [] count = Inr count"
| "count_loop_links hops tg fs directory (relativePath # rels) count =
     (case is_regular_file_links hops tg fs (directory @ relativePath) of
        Inl e \<Rightarrow> Inl e
      | Inr True \<Rightarrow> count_loop_links hops tg fs directory rels (count + 1)
      | Inr False \<Rightarrow>
          (case is_directory_links hops tg fs (directory @ relativePath) of
             Inl e \<Rightarrow> Inl e
           | Inr b \<Rightarrow>
               count_loop_links hops tg fs directory rels (if b then count + 1 else count)))"

definition countFilesAndDirectories_links ::
  "nat \<Rightarrow> targets \<Rightarrow> node \<Rightarrow> path \<Rightarrow> fs_error + int" where
  "countFilesAndDirectories_links hops tg fs directory =
     (case recursive_directory_iterator_links hops tg fs directory of
        Inl e \<Rightarrow> Inl e
      | Inr rels \<Rightarrow> count_loop_links hops tg fs directory rels 0)"

subsection \<open>The first loop of syncDelete with links\<close>

text \<open>
  \<^verbatim>\<open>fs::relative(path, replica)\<close> is
  \<^verbatim>\<open>weakly_canonical(path).lexically_relative(weakly_canonical(replica))\<close>.
  \<^verbatim>\<open>weakly_canonical\<close> resolves a path that exists; of a path that does not exist it
  resolves the longest leading part that does and appends the rest, normalised. So the
  relative path of a link with a target that exists is the relative path of the
  target, which starts with \<^verbatim>\<open>..\<close> when the target is outside the replica and is
  \<^verbatim>\<open>.\<close> when the target is the replica root.
\<close>

fun existing_prefix ::
  "nat \<Rightarrow> targets \<Rightarrow> node \<Rightarrow> path \<Rightarrow> path \<Rightarrow> fs_error + path \<times> path" where
  "existing_prefix hops tg fs result [] = Inr (result, [])"
| "existing_prefix hops tg fs result (x # rest) =
     (case fs_status hops tg fs (result @ [x]) of
        Inl e \<Rightarrow> Inl e
      | Inr None \<Rightarrow> Inr (result, x # rest)
      | Inr (Some e) \<Rightarrow> existing_prefix hops tg fs (result @ [x]) rest)"

fun append_normal :: "path \<Rightarrow> path \<Rightarrow> path" where
  "append_normal c [] = c"
| "append_normal c (x # rest) =
     (if x = ''.'' then append_normal c rest
      else if x = ''..'' then append_normal (butlast c) rest
      else append_normal (c @ [x]) rest)"

definition weakly_canonical :: "nat \<Rightarrow> targets \<Rightarrow> node \<Rightarrow> path \<Rightarrow> fs_error + path" where
  "weakly_canonical hops tg fs p =
     (case walk hops tg fs [] p of
        Found c \<Rightarrow> Inr c
      | TooManyLinks \<Rightarrow> Inl (StatusError p)
      | NotFound \<Rightarrow>
          (case existing_prefix hops tg fs [] p of
             Inl e \<Rightarrow> Inl e
           | Inr (result, rest) \<Rightarrow>
               (case walk hops tg fs [] result of
                  Found c \<Rightarrow> Inr (append_normal c rest)
                | _ \<Rightarrow> Inl (StatusError result))))"

fun lexically_relative :: "path \<Rightarrow> path \<Rightarrow> path" where
  "lexically_relative [] [] = [''.'']"
| "lexically_relative [] (y # ys) = replicate (length (y # ys)) ''..''"
| "lexically_relative (x # xs) [] = x # xs"
| "lexically_relative (x # xs) (y # ys) =
     (if x = y then lexically_relative xs ys
      else replicate (length (y # ys)) ''..'' @ x # xs)"

definition relative :: "nat \<Rightarrow> targets \<Rightarrow> node \<Rightarrow> path \<Rightarrow> path \<Rightarrow> fs_error + path" where
  "relative hops tg fs p base =
     (case weakly_canonical hops tg fs p of
        Inl e \<Rightarrow> Inl e
      | Inr a \<Rightarrow>
          (case weakly_canonical hops tg fs base of
             Inl e \<Rightarrow> Inl e
           | Inr b \<Rightarrow> Inr (lexically_relative a b)))"

text \<open>
  The first loop of \<^verbatim>\<open>syncDelete\<close>, lines 132 to 140: the value of \<^verbatim>\<open>filesToRemove\<close>
  when the loop ends, or the exception that ends it.
\<close>

fun collect_stale_links ::
  "nat \<Rightarrow> targets \<Rightarrow> node \<Rightarrow> path \<Rightarrow> path \<Rightarrow> path list \<Rightarrow> path list \<Rightarrow> fs_error + path list" where
  "collect_stale_links hops tg fs source replica [] filesToRemove = Inr filesToRemove"
| "collect_stale_links hops tg fs source replica (r # rels) filesToRemove =
     (case relative hops tg fs (replica @ r) replica of
        Inl e \<Rightarrow> Inl e
      | Inr relativePath \<Rightarrow>
          (case exists_links hops tg fs (source @ relativePath) of
             Inl e \<Rightarrow> Inl e
           | Inr found \<Rightarrow>
               collect_stale_links hops tg fs source replica rels
                 (if \<not> found then filesToRemove @ [replica @ r] else filesToRemove)))"

definition filesToRemove_links ::
  "nat \<Rightarrow> targets \<Rightarrow> node \<Rightarrow> path \<Rightarrow> path \<Rightarrow> fs_error + path list" where
  "filesToRemove_links hops tg fs source replica =
     (case recursive_directory_iterator_links hops tg fs replica of
        Inl e \<Rightarrow> Inl e
      | Inr rels \<Rightarrow> collect_stale_links hops tg fs source replica rels [])"

section \<open>Notions the properties are stated with\<close>

text \<open>
  The entries the completion check counts, and their number as the size of a set of
  relative paths.
\<close>

definition counted :: "node \<Rightarrow> path \<Rightarrow> path \<Rightarrow> bool" where
  "counted fs directory r \<longleftrightarrow>
     is_regular_file fs (directory @ r) \<or> is_directory fs (directory @ r)"



text \<open>
  The value of the local variable \<^verbatim>\<open>shouldCopy\<close> of \<^verbatim>\<open>syncCopy\<close>, and the condition
  under which \<^verbatim>\<open>copy_file\<close> does not throw for a source that is a regular file.
\<close>

definition shouldCopy :: "(bytes \<Rightarrow> 8 word list) \<Rightarrow> node \<Rightarrow> path \<Rightarrow> path \<Rightarrow> bool" where
  "shouldCopy digest fs path replicaPath \<longleftrightarrow>
     stat fs replicaPath = None \<or>
     computeFileHash digest fs path \<noteq> computeFileHash digest fs replicaPath"















text \<open>
  Notions for the file system with links. A link is a special entry with a recorded
  target. The names \<^verbatim>\<open>.\<close> and \<^verbatim>\<open>..\<close> are never those of an entry; \<open>proper_names\<close> says so
  of a tree. \<open>counted_links\<close> is the test of the counting loop, on the status with links
  followed. \<open>resolvable\<close> says that \<^verbatim>\<open>fs::status\<close> throws for no entry below the
  directory \<open>c\<close> that the path \<open>directory\<close> leads to. \<open>stale_links\<close> is the test of the
  first loop of \<^verbatim>\<open>syncDelete\<close>: \<^verbatim>\<open>fs::exists\<close> is false at the source path made from the
  relative path of the replica entry.
\<close>

definition is_link :: "targets \<Rightarrow> node \<Rightarrow> path \<Rightarrow> bool" where
  "is_link tg fs p \<longleftrightarrow> stat fs p = Some EOther \<and> tg p \<noteq> None"

fun proper_names :: "node \<Rightarrow> bool" and proper_names_children :: "(name \<times> node) list \<Rightarrow> bool" where
  "proper_names (File b) = True"
| "proper_names Other = True"
| "proper_names (Dir cs) = proper_names_children cs"
| "proper_names_children [] = True"
| "proper_names_children ((x, c) # cs) =
     (x \<noteq> ''.'' \<and> x \<noteq> ''..'' \<and> proper_names c \<and> proper_names_children cs)"

definition counted_links :: "nat \<Rightarrow> targets \<Rightarrow> node \<Rightarrow> path \<Rightarrow> path \<Rightarrow> bool" where
  "counted_links hops tg fs directory r =
     (case fs_status hops tg fs (directory @ r) of
        Inr (Some (EFile b)) \<Rightarrow> True
      | Inr (Some EDir) \<Rightarrow> True
      | _ \<Rightarrow> False)"

definition resolvable :: "nat \<Rightarrow> targets \<Rightarrow> node \<Rightarrow> path \<Rightarrow> path \<Rightarrow> bool" where
  "resolvable hops tg fs directory c \<longleftrightarrow>
     (\<forall>r. r \<noteq> [] \<and> stat fs (c @ r) \<noteq> None \<longrightarrow>
          fs_status hops tg fs (directory @ r) \<noteq> Inl (StatusError (directory @ r)))"

definition stale_links :: "nat \<Rightarrow> targets \<Rightarrow> node \<Rightarrow> path \<Rightarrow> path \<Rightarrow> path \<Rightarrow> bool" where
  "stale_links hops tg fs source replica r =
     (case relative hops tg fs (replica @ r) replica of
        Inl e \<Rightarrow> False
      | Inr relativePath \<Rightarrow> exists_links hops tg fs (source @ relativePath) = Inr False)"

subsection \<open>Sample trees\<close>



definition tree_kinds :: node where
  "tree_kinds =
     Dir [(''src'', Dir [(''x'', Other), (''y'', File ''Y'')]),
          (''rep'', Dir [(''x'', File ''old''), (''y'', Dir [])])]"

definition tree_hash :: node where
  "tree_hash = Dir [(''src'', Dir [(''e'', File [])]), (''rep'', Dir [])]"

definition tree_conflict :: node where
  "tree_conflict =
     Dir [(''src'', Dir [(''d'', Dir [(''f'', File ''1'')]), (''g'', File ''2'')]),
          (''rep'', Dir [(''d'', File ''x'')])]"


definition tree_stale :: node where
  "tree_stale =
     Dir [(''src'', Dir [(''a'', File ''A'')]),
          (''rep'', Dir [(''a'', File ''A''), (''old'', Dir [(''deep'', File ''D'')])])]"


text \<open>
  A source with a link \<^verbatim>\<open>l\<close> to the file \<^verbatim>\<open>f\<close>, a link \<^verbatim>\<open>gone\<close> whose target does not
  exist, and a FIFO; the replica has regular files named like the last two.
\<close>

definition tree_links :: node where
  "tree_links =
     Dir [(''src'', Dir [(''f'', File ''data''), (''l'', Other), (''gone'', Other), (''pipe'', Other)]),
          (''rep'', Dir [(''gone'', File ''old''), (''pipe'', File ''p'')])]"

definition links_sample :: targets where
  "links_sample = [[''src'', ''l''] \<mapsto> [''src'', ''f''], [''src'', ''gone''] \<mapsto> [''nowhere'']]"

text \<open>A source whose one entry is a link to itself.\<close>

definition tree_loop :: node where
  "tree_loop = Dir [(''src'', Dir [(''a'', Other)]), (''rep'', Dir [])]"

definition loop_sample :: targets where
  "loop_sample = [[''src'', ''a''] \<mapsto> [''src'', ''a'']]"

section \<open>Laws of the file system\<close>

subsection \<open>Looking up\<close>

lemma lookup_append:
  "lookup fs (p @ q) = (case lookup fs p of None \<Rightarrow> None | Some n \<Rightarrow> lookup n q)"
  by (induction fs p rule: lookup.induct) (auto split: option.splits)

lemma stat_append:
  "stat fs (p @ q) = (case lookup fs p of None \<Rightarrow> None | Some n \<Rightarrow> stat n q)"
  by (simp add: stat_def lookup_append split: option.splits)

lemma stat_Nil [simp]: "stat n [] = Some (entry_of n)"
  by (simp add: stat_def)

lemma stat_Dir_Cons [simp]:
  "stat (Dir cs) (x # q) = (case map_of cs x of None \<Rightarrow> None | Some c \<Rightarrow> stat c q)"
  by (simp add: stat_def split: option.splits)

lemma stat_File_Cons [simp]: "stat (File b) (x # q) = None"
  by (simp add: stat_def)

lemma stat_Other_Cons [simp]: "stat Other (x # q) = None"
  by (simp add: stat_def)

lemma lookup_Cons_Some: "lookup n (x # q) = Some m \<Longrightarrow> \<exists>cs. n = Dir cs"
  by (cases n) auto

lemma stat_parent_dir: "stat fs (p @ x # q) = Some e \<Longrightarrow> stat fs p = Some EDir"
  by (auto simp: stat_def lookup_append split: option.splits dest!: lookup_Cons_Some)



lemma remove_all_stat:
  "t \<noteq> [] \<Longrightarrow> stat (remove_all t fs) q = (if prefix t q then None else stat fs q)"
proof (induction t fs arbitrary: q rule: remove_all.induct)
  case (2 x cs)
  then show ?case by (cases q) (auto simp: delete_conv' split: option.splits)
next
  case (3 x y p cs)
  then show ?case
    by (cases q) (auto simp: update_conv' split: option.splits)
next
  case (4 x p b) then show ?case by (cases q) auto
next
  case (5 x p) then show ?case by (cases q) auto
qed simp_all

subsection \<open>What a write or a removal leaves alone\<close>







lemma well_formed_children_map_of:
  "well_formed_children cs \<Longrightarrow> map_of cs x = Some c \<Longrightarrow> well_formed c"
  by (induction cs) (auto split: if_splits)



lemma well_formed_lookup: "well_formed fs \<Longrightarrow> lookup fs p = Some n \<Longrightarrow> well_formed n"
  by (induction fs p rule: lookup.induct)
    (auto split: option.splits dest: well_formed_children_map_of)

subsection \<open>The entries an iterator yields\<close>

lemma Nil_notin_entries:
  "[] \<notin> set (entries n)" "[] \<notin> set (entries_children cs)"
  by (induction n and cs rule: entries_entries_children.induct) auto

lemma map_of_notin: "x \<notin> fst ` set cs \<Longrightarrow> map_of cs x = None"
  by (simp add: map_of_eq_None_iff)

lemma entries_children_heads:
  "q \<in> set (entries_children cs) \<Longrightarrow> hd q \<in> fst ` set cs"
  by (induction cs) (auto simp: image_iff)

lemma mem_entries_iff:
  "well_formed n \<Longrightarrow> q \<in> set (entries n) \<longleftrightarrow> q \<noteq> [] \<and> lookup n q \<noteq> None"
  "well_formed_children cs \<Longrightarrow>
     q \<in> set (entries_children cs) \<longleftrightarrow> q \<noteq> [] \<and> lookup (Dir cs) q \<noteq> None"
proof (induction n and cs arbitrary: q and q rule: entries_entries_children.induct)
  case (1 b) then show ?case by (cases q) auto
next
  case 2 then show ?case by (cases q) auto
next
  case (3 cs) then show ?case by simp
next
  case 4 then show ?case by (cases q) auto
next
  case (5 x c cs)
  show ?case
  proof (cases q)
    case Nil
    then show ?thesis using Nil_notin_entries by auto
  next
    case (Cons y r)
    show ?thesis
    proof (cases "y = x")
      case True
      have "y # r \<notin> set (entries_children cs)"
        using "5.prems" True entries_children_heads[of "y # r" cs] by auto
      moreover have "r \<in> set (entries c) \<longleftrightarrow> r \<noteq> [] \<and> lookup c r \<noteq> None"
        using "5.IH"(1)[of r] "5.prems" by simp
      ultimately show ?thesis using Cons True by (cases r) auto
    next
      case False
      have "q \<in> set (entries_children cs) \<longleftrightarrow> q \<noteq> [] \<and> lookup (Dir cs) q \<noteq> None"
        using "5.IH"(2)[of q] "5.prems" by simp
      then show ?thesis using Cons False by auto
    qed
  qed
qed






lemma distinct_entries:
  "well_formed n \<Longrightarrow> distinct (entries n)"
  "well_formed_children cs \<Longrightarrow> distinct (entries_children cs)"
proof (induction n and cs rule: entries_entries_children.induct)
  case (5 x c cs)
  have "\<And>q. q \<in> set (entries_children cs) \<Longrightarrow> hd q \<noteq> x"
    using "5.prems" entries_children_heads by fastforce
  moreover have "[] \<notin> set (entries c)" by (rule Nil_notin_entries)
  ultimately show ?case using 5 by (force simp: distinct_map inj_on_def)
qed simp_all

section \<open>Iterating and counting\<close>


lemma lookup_root_append:
  "lookup fs root = Some n \<Longrightarrow> stat fs (root @ r) = stat n r"
  by (simp add: stat_append)

lemma iterator_Inr_iff:
  "recursive_directory_iterator fs root = Inr rels \<longleftrightarrow>
     (\<exists>cs. lookup fs root = Some (Dir cs) \<and> rels = entries (Dir cs))"
proof (cases "lookup fs root")
  case None
  then show ?thesis by (simp add: recursive_directory_iterator_def)
next
  case (Some n)
  then show ?thesis by (cases n) (auto simp: recursive_directory_iterator_def)
qed

lemma entry_of_EDir_iff: "entry_of n = EDir \<longleftrightarrow> (\<exists>cs. n = Dir cs)"
  by (cases n) auto

lemma is_directory_iff: "is_directory fs p \<longleftrightarrow> stat fs p = Some EDir"
  by (simp add: is_directory_def split: option.splits entry.splits)

lemma is_directory_lookup:
  "is_directory fs root \<longleftrightarrow> (\<exists>cs. lookup fs root = Some (Dir cs))"
  by (cases "lookup fs root") (simp_all add: is_directory_iff stat_def entry_of_EDir_iff)

lemma iterator_Inl_iff:
  "(\<exists>e. recursive_directory_iterator fs root = Inl e) \<longleftrightarrow> \<not> is_directory fs root"
proof (cases "lookup fs root")
  case None
  then show ?thesis by (simp add: recursive_directory_iterator_def is_directory_lookup)
next
  case (Some n)
  then show ?thesis
    by (cases n) (simp_all add: recursive_directory_iterator_def is_directory_lookup)
qed

lemma iterator_set:
  assumes "well_formed fs" "recursive_directory_iterator fs root = Inr rels"
  shows "set rels = {r. r \<noteq> [] \<and> stat fs (root @ r) \<noteq> None}" "distinct rels"
proof -
  from assms(2) obtain cs where cs: "lookup fs root = Some (Dir cs)" "rels = entries (Dir cs)"
    by (auto simp: iterator_Inr_iff)
  from assms(1) cs(1) have wf: "well_formed (Dir cs)" by (rule well_formed_lookup)
  show "set rels = {r. r \<noteq> [] \<and> stat fs (root @ r) \<noteq> None}"
  proof (rule set_eqI)
    fix r
    have "lookup fs (root @ r) = lookup (Dir cs) r"
      using cs(1) by (simp add: lookup_append)
    then show "r \<in> set rels \<longleftrightarrow> r \<in> {r. r \<noteq> [] \<and> stat fs (root @ r) \<noteq> None}"
      using mem_entries_iff(1)[OF wf, of r] cs(2) by (simp add: stat_def)
  qed
  show "distinct rels" using distinct_entries(1)[OF wf] cs by simp
qed

lemma is_regular_file_iff: "is_regular_file fs p \<longleftrightarrow> (\<exists>b. stat fs p = Some (EFile b))"
  by (simp add: is_regular_file_def split: option.splits entry.splits)

lemma exists_path_iff: "exists_path fs p \<longleftrightarrow> stat fs p \<noteq> None"
  by (simp add: exists_path_def split: option.splits)




section \<open>One round of each loop\<close>


lemma create_directory_Inl:
  "create_directory fs p = Inl e \<Longrightarrow> stat fs p = None \<Longrightarrow> set_child p (Dir []) fs = None"
  by (auto simp: create_directory_def split: option.splits)













lemma collect_stale_filter:
  "collect_stale fs source replica rels filesToRemove =
     filesToRemove @ map ((@) replica) (filter (\<lambda>r. \<not> exists_path fs (source @ r)) rels)"
  by (induction rels arbitrary: filesToRemove) auto

lemma remove_each_files: "files (remove_each ps s) = fold remove_all ps (files s)"
  by (induction ps arbitrary: s) (auto simp: logOperation_def)


lemma remove_each_changesMade: "changesMade (remove_each ps s) \<longleftrightarrow> changesMade s \<or> ps \<noteq> []"
  by (induction ps arbitrary: s) (auto simp: logOperation_def)

lemma remove_each_Nil: "remove_each [] s = s"
  by simp

lemma fold_remove_all_stat:
  "[] \<notin> set ps \<Longrightarrow>
   stat (fold remove_all ps fs) q = (if \<exists>p \<in> set ps. prefix p q then None else stat fs q)"
  by (induction ps arbitrary: fs) (auto simp: remove_all_stat)

section \<open>Nothing outside the replica changes\<close>







lemma files_logOperation [simp]: "files (logOperation m s) = files s"
  by (simp add: logOperation_def)





lemma iterator_nonempty:
  "recursive_directory_iterator fs root = Inr rels \<Longrightarrow> [] \<notin> set rels"
  using Nil_notin_entries(2) by (auto simp: iterator_Inr_iff)

lemma syncDelete_files:
  "recursive_directory_iterator (files s) replica = Inr rels \<Longrightarrow>
   syncDelete source replica s =
     remove_each (map ((@) replica) (filter (\<lambda>r. \<not> exists_path (files s) (source @ r)) rels)) s"
  by (simp add: syncDelete_def collect_stale_filter)





section \<open>What each reconciler does to a path\<close>

lemma stat_prefix_closed: "stat fs (p @ q) \<noteq> None \<Longrightarrow> stat fs p \<noteq> None"
  by (cases "lookup fs p") (simp_all add: stat_append, simp add: stat_def)

lemma counted_iff:
  "counted fs directory r \<longleftrightarrow> (\<exists>e. stat fs (directory @ r) = Some e \<and> e \<noteq> EOther)"
proof (cases "stat fs (directory @ r)")
  case None
  then show ?thesis by (simp add: counted_def is_regular_file_iff is_directory_iff)
next
  case (Some e)
  then show ?thesis
    by (cases e) (simp_all add: counted_def is_regular_file_iff is_directory_iff)
qed

lemma syncDelete_stat:
  assumes "recursive_directory_iterator (files s) replica = Inr rels"
  shows "stat (files (syncDelete source replica s)) q =
           (if \<exists>r \<in> set rels. stat (files s) (source @ r) = None \<and> prefix (replica @ r) q
            then None else stat (files s) q)"
proof -
  let ?ps = "map ((@) replica) (filter (\<lambda>r. \<not> exists_path (files s) (source @ r)) rels)"
  have "[] \<notin> set ?ps" using iterator_nonempty[OF assms] by auto
  then have "stat (fold remove_all ?ps (files s)) q =
      (if \<exists>p \<in> set ?ps. prefix p q then None else stat (files s) q)"
    by (rule fold_remove_all_stat)
  moreover have "(\<exists>p \<in> set ?ps. prefix p q) \<longleftrightarrow>
      (\<exists>r \<in> set rels. stat (files s) (source @ r) = None \<and> prefix (replica @ r) q)"
    by (auto simp: exists_path_iff)
  ultimately show ?thesis
    by (simp only: syncDelete_files[OF assms] remove_each_files)
qed

lemma syncDelete_not_directory:
  "\<not> is_directory (files s) replica \<Longrightarrow>
   \<exists>e. syncDelete source replica s = logOperation (FilesystemError e) s"
  using iterator_Inl_iff[of "files s" replica] by (auto simp: syncDelete_def)


lemma read_buffer_not_regular: "\<not> is_regular_file fs p \<Longrightarrow> read_buffer fs p = []"
  by (auto simp: read_buffer_def is_regular_file_iff split: option.splits entry.splits)



lemma for_each_append:
  "for_each body (as @ bs) s =
     (case for_each body as s of
        (None, s1) \<Rightarrow> for_each body bs s1
      | (Some e, s1) \<Rightarrow> (Some e, s1))"
  by (induction as arbitrary: s) (auto split: sum.splits)



section \<open>Resolving paths with links\<close>

text \<open>
  A path on which no link lies resolves to itself when it exists. The entries that the
  iterator yields are reached from the directory without a link on the way, up to the
  entry itself, so an entry that is not a link has the status of its own node.
\<close>

lemma proper_names_children_map_of:
  "proper_names_children cs \<Longrightarrow> map_of cs x = Some c \<Longrightarrow> x \<noteq> ''.'' \<and> x \<noteq> ''..'' \<and> proper_names c"
  by (induction cs) (auto split: if_splits)

lemma proper_names_lookup:
  "proper_names fs \<Longrightarrow> lookup fs p = Some n \<Longrightarrow> ''.'' \<notin> set p \<and> ''..'' \<notin> set p"
proof (induction p arbitrary: fs)
  case Nil
  then show ?case by simp
next
  case (Cons x p)
  from Cons.prems(2) obtain cs where fs: "fs = Dir cs" by (auto dest: lookup_Cons_Some)
  with Cons.prems(2) obtain c where c: "map_of cs x = Some c" "lookup c p = Some n"
    by (auto split: option.splits)
  from Cons.prems(1) fs c(1) have x: "x \<noteq> ''.'' \<and> x \<noteq> ''..'' \<and> proper_names c"
    by (auto dest: proper_names_children_map_of)
  then have "''.'' \<notin> set p \<and> ''..'' \<notin> set p" using Cons.IH[of c] c(2) by simp
  with x show ?case by auto
qed

lemma walk_plain:
  assumes "stat fs (at @ q) \<noteq> None"
    and "\<forall>q'. prefix q' q \<and> q' \<noteq> [] \<longrightarrow> \<not> is_link tg fs (at @ q')"
    and "''.'' \<notin> set q" and "''..'' \<notin> set q"
  shows "walk hops tg fs at q = Found (at @ q)"
  using assms
proof (induction q arbitrary: at)
  case Nil
  then show ?case by simp
next
  case (Cons x q)
  from Cons.prems(1) obtain e where e: "stat fs (at @ x # q) = Some e" by auto
  then have d: "is_directory fs at" by (auto simp: is_directory_iff dest: stat_parent_dir)
  from Cons.prems(1) have ex: "stat fs (at @ [x]) \<noteq> None"
    using stat_prefix_closed[of fs "at @ [x]" q] by simp
  have nl: "\<not> is_link tg fs (at @ [x])" using Cons.prems(2) by (auto simp: prefix_def)
  have ih: "walk hops tg fs (at @ [x]) q = Found ((at @ [x]) @ q)"
  proof (rule Cons.IH)
    show "stat fs ((at @ [x]) @ q) \<noteq> None" using Cons.prems(1) by simp
    show "\<forall>q'. prefix q' q \<and> q' \<noteq> [] \<longrightarrow> \<not> is_link tg fs ((at @ [x]) @ q')"
    proof (intro allI impI)
      fix q' assume "prefix q' q \<and> q' \<noteq> []"
      then have "prefix (x # q') (x # q) \<and> x # q' \<noteq> []" by simp
      with Cons.prems(2) have "\<not> is_link tg fs (at @ x # q')" by blast
      then show "\<not> is_link tg fs ((at @ [x]) @ q')" by simp
    qed
    show "''.'' \<notin> set q" "''..'' \<notin> set q" using Cons.prems(3,4) by simp_all
  qed
  from Cons.prems(3,4) have x: "x \<noteq> ''.''" "x \<noteq> ''..''" by auto
  from ex obtain e' where e': "stat fs (at @ [x]) = Some e'" by auto
  show ?case
  proof (cases e')
    case EOther
    with nl e' have "tg (at @ [x]) = None" by (simp add: is_link_def)
    with d x e' EOther ih show ?thesis by simp
  qed (use d x e' ih in simp_all)
qed

lemma walk_append_plain:
  "\<forall>h. walk h tg fs c q = Found (c @ q) \<Longrightarrow> walk hops tg fs at p = Found c \<Longrightarrow>
   walk hops tg fs at (p @ q) = Found (c @ q)"
proof (induction hops tg fs at p rule: walk.induct)
  case (1 hops tg fs at)
  then show ?case by simp
next
  case (2 hops tg fs at x rest)
  then show ?case
    by (auto split: if_splits option.splits entry.splits)
qed

lemma lexically_relative_append: "r \<noteq> [] \<Longrightarrow> lexically_relative (c @ r) c = r"
  by (induction c) (cases r; simp)+

text \<open>
  The counting loop returns the number of entries that pass its test, unless
  \<^verbatim>\<open>fs::status\<close> throws for one of them.
\<close>

lemma fs_status_cases:
  "(\<exists>v. fs_status hops tg fs p = Inr v) \<or> fs_status hops tg fs p = Inl (StatusError p)"
  by (simp add: fs_status_def split: resolution.splits)

lemma exists_links_False_iff:
  "exists_links hops tg fs p = Inr False \<longleftrightarrow> fs_status hops tg fs p = Inr None"
  by (simp add: exists_links_def split: sum.splits option.splits)

lemma count_loop_links_filter:
  "\<forall>r\<in>set rels. fs_status hops tg fs (directory @ r) \<noteq> Inl (StatusError (directory @ r)) \<Longrightarrow>
   count_loop_links hops tg fs directory rels count =
     Inr (count + int (length (filter (counted_links hops tg fs directory) rels)))"
proof (induction rels arbitrary: count)
  case Nil
  then show ?case by simp
next
  case (Cons r rels)
  from Cons.prems fs_status_cases[of hops tg fs "directory @ r"]
  obtain v where v: "fs_status hops tg fs (directory @ r) = Inr v" by auto
  from Cons.prems have rest: "\<forall>r\<in>set rels. fs_status hops tg fs (directory @ r) \<noteq> Inl (StatusError (directory @ r))"
    by simp
  show ?case
    using v Cons.IH[OF rest]
    by (simp add: is_regular_file_links_def is_directory_links_def counted_links_def
        split: option.splits entry.splits)
qed

lemma count_loop_links_Inl:
  "\<exists>r\<in>set rels. fs_status hops tg fs (directory @ r) = Inl (StatusError (directory @ r)) \<Longrightarrow>
   \<exists>e. count_loop_links hops tg fs directory rels count = Inl e"
proof (induction rels arbitrary: count)
  case Nil
  then show ?case by simp
next
  case (Cons r rels)
  show ?case
  proof (cases "fs_status hops tg fs (directory @ r) = Inl (StatusError (directory @ r))")
    case True
    then show ?thesis by (simp add: is_regular_file_links_def)
  next
    case False
    with fs_status_cases[of hops tg fs "directory @ r"]
    obtain v where v: "fs_status hops tg fs (directory @ r) = Inr v" by auto
    from False Cons.prems have "\<exists>r\<in>set rels. fs_status hops tg fs (directory @ r) = Inl (StatusError (directory @ r))"
      by auto
    from Cons.IH[OF this] v show ?thesis
      by (simp add: is_regular_file_links_def is_directory_links_def
        split: option.splits entry.splits)
  qed
qed

text \<open>The iterator, the count as the size of a set, and the list of removals.\<close>

lemma iterator_links_Inr_iff:
  "recursive_directory_iterator_links hops tg fs root = Inr rels \<longleftrightarrow>
     (\<exists>c. walk hops tg fs [] root = Found c \<and> recursive_directory_iterator fs c = Inr rels)"
  by (auto simp: recursive_directory_iterator_links_def recursive_directory_iterator_def
      split: resolution.splits option.splits node.splits)

lemma resolvable_iff:
  assumes "well_formed fs" "recursive_directory_iterator fs c = Inr rels"
  shows "resolvable hops tg fs directory c \<longleftrightarrow>
     (\<forall>r \<in> set rels. fs_status hops tg fs (directory @ r) \<noteq> Inl (StatusError (directory @ r)))"
  unfolding resolvable_def using iterator_set(1)[OF assms] by auto

lemma countFilesAndDirectories_links_card:
  assumes "well_formed fs" "walk hops tg fs [] directory = Found c" "is_directory fs c"
    and "resolvable hops tg fs directory c"
  shows "countFilesAndDirectories_links hops tg fs directory =
     Inr (int (card {r. r \<noteq> [] \<and> stat fs (c @ r) \<noteq> None \<and> counted_links hops tg fs directory r}))"
proof -
  from assms(3) obtain rels where it: "recursive_directory_iterator fs c = Inr rels"
    by (auto simp: is_directory_lookup recursive_directory_iterator_def)
  note s = iterator_set[OF assms(1) it]
  from assms(2) it have itl: "recursive_directory_iterator_links hops tg fs directory = Inr rels"
    by (auto simp: iterator_links_Inr_iff)
  from assms(4) have ok: "\<forall>r \<in> set rels.
      fs_status hops tg fs (directory @ r) \<noteq> Inl (StatusError (directory @ r))"
    by (simp add: resolvable_iff[OF assms(1) it])
  have "{r. r \<noteq> [] \<and> stat fs (c @ r) \<noteq> None \<and> counted_links hops tg fs directory r}
          = set (filter (counted_links hops tg fs directory) rels)"
    using s(1) by auto
  moreover have "distinct (filter (counted_links hops tg fs directory) rels)"
    using s(2) by simp
  ultimately have "card {r. r \<noteq> [] \<and> stat fs (c @ r) \<noteq> None \<and> counted_links hops tg fs directory r}
          = length (filter (counted_links hops tg fs directory) rels)"
    by (simp only: distinct_card)
  then show ?thesis
    by (simp add: countFilesAndDirectories_links_def itl count_loop_links_filter[OF ok])
qed

lemma collect_stale_links_Inr:
  "collect_stale_links hops tg fs source replica rels acc = Inr ps \<Longrightarrow>
   ps = acc @ map ((@) replica) (filter (stale_links hops tg fs source replica) rels)"
proof (induction rels arbitrary: acc)
  case Nil
  then show ?case by simp
next
  case (Cons r rels)
  from Cons.prems obtain rp found where
    rp: "relative hops tg fs (replica @ r) replica = Inr rp"
    and f: "exists_links hops tg fs (source @ rp) = Inr found"
    and rest: "collect_stale_links hops tg fs source replica rels
                 (if \<not> found then acc @ [replica @ r] else acc) = Inr ps"
    by (auto split: sum.splits)
  from rp f have st: "stale_links hops tg fs source replica r \<longleftrightarrow> \<not> found"
    by (auto simp: stale_links_def)
  from Cons.IH[OF rest] st show ?case by simp
qed

lemma plain_entry_walk:
  assumes "proper_names fs" "stat fs (c @ r) \<noteq> None" "\<not> is_link tg fs (c @ r)"
  shows "walk h tg fs c r = Found (c @ r)"
proof (rule walk_plain)
  show "stat fs (c @ r) \<noteq> None" by fact
  show "\<forall>q'. prefix q' r \<and> q' \<noteq> [] \<longrightarrow> \<not> is_link tg fs (c @ q')"
  proof (intro allI impI)
    fix q' assume q: "prefix q' r \<and> q' \<noteq> []"
    then obtain z where z: "r = q' @ z" by (auto simp: prefix_def)
    show "\<not> is_link tg fs (c @ q')"
    proof (cases z)
      case Nil
      with z assms(3) show ?thesis by simp
    next
      case (Cons x z')
      from assms(2) obtain e where "stat fs ((c @ q') @ x # z') = Some e"
        using z Cons by auto
      then have "stat fs (c @ q') = Some EDir" by (rule stat_parent_dir)
      then show ?thesis by (simp add: is_link_def)
    qed
  qed
  from assms(2) obtain n where "lookup fs (c @ r) = Some n" by (auto simp: stat_def)
  with assms(1) have "''.'' \<notin> set (c @ r) \<and> ''..'' \<notin> set (c @ r)" by (rule proper_names_lookup)
  then show "''.'' \<notin> set r" "''..'' \<notin> set r" by simp_all
qed

lemma relative_plain_entry:
  assumes "proper_names fs" "walk hops tg fs [] replica = Found c"
    and "r \<noteq> []" "stat fs (c @ r) \<noteq> None" "\<not> is_link tg fs (c @ r)"
  shows "relative hops tg fs (replica @ r) replica = Inr r"
proof -
  have "\<forall>h. walk h tg fs c r = Found (c @ r)"
    using plain_entry_walk[OF assms(1,4,5)] by simp
  from walk_append_plain[OF this assms(2)]
  have "walk hops tg fs [] (replica @ r) = Found (c @ r)" .
  then show ?thesis
    using assms(2,3) by (simp add: relative_def weakly_canonical_def lexically_relative_append)
qed

lemma filesToRemove_links_mem:
  assumes "well_formed fs" "proper_names fs" "walk hops tg fs [] replica = Found c"
    and "filesToRemove_links hops tg fs source replica = Inr ps"
    and "r \<noteq> []" "stat fs (c @ r) \<noteq> None" "\<not> is_link tg fs (c @ r)"
  shows "replica @ r \<in> set ps \<longleftrightarrow> fs_status hops tg fs (source @ r) = Inr None"
proof -
  from assms(4) obtain rels where
    itl: "recursive_directory_iterator_links hops tg fs replica = Inr rels"
    and col: "collect_stale_links hops tg fs source replica rels [] = Inr ps"
    by (auto simp: filesToRemove_links_def split: sum.splits)
  from itl assms(3) have it: "recursive_directory_iterator fs c = Inr rels"
    by (auto simp: iterator_links_Inr_iff)
  from iterator_set(1)[OF assms(1) it] assms(5,6) have mem: "r \<in> set rels" by simp
  have ps: "ps = map ((@) replica) (filter (stale_links hops tg fs source replica) rels)"
    using collect_stale_links_Inr[OF col] by simp
  have "replica @ r \<in> set ps \<longleftrightarrow> r \<in> set (filter (stale_links hops tg fs source replica) rels)"
    unfolding ps by auto
  also have "\<dots> \<longleftrightarrow> stale_links hops tg fs source replica r" using mem by simp
  also have "\<dots> \<longleftrightarrow> fs_status hops tg fs (source @ r) = Inr None"
    by (simp add: stale_links_def relative_plain_entry[OF assms(2,3,5,6,7)] exists_links_False_iff)
  finally show ?thesis .
qed

text \<open>
  Without links the functions of this section are the ones of the program: a path
  leads to the entry it names, the count is \<open>countFilesAndDirectories\<close> and the list of
  removals is the one \<open>collect_stale\<close> builds.
\<close>

lemma walk_no_link_on_path:
  assumes "''.'' \<notin> set q" "''..'' \<notin> set q"
    and "\<forall>q'. prefix q' q \<and> q' \<noteq> [] \<longrightarrow> \<not> is_link tg fs (at @ q')"
    and "stat fs at \<noteq> None"
  shows "walk hops tg fs at q = (if stat fs (at @ q) \<noteq> None then Found (at @ q) else NotFound)"
  using assms
proof (induction q arbitrary: at)
  case Nil
  then show ?case by simp
next
  case (Cons x q)
  from Cons.prems(1,2) have x: "x \<noteq> ''.''" "x \<noteq> ''..''" by auto
  show ?case
  proof (cases "is_directory fs at")
    case False
    have "stat fs (at @ x # q) = None"
    proof (rule ccontr)
      assume "stat fs (at @ x # q) \<noteq> None"
      then obtain e where "stat fs (at @ x # q) = Some e" by auto
      then have "stat fs at = Some EDir" by (rule stat_parent_dir)
      with False show False by (simp add: is_directory_iff)
    qed
    with False show ?thesis by simp
  next
    case True
    show ?thesis
    proof (cases "stat fs (at @ [x])")
      case None
      have "stat fs ((at @ [x]) @ q) = None"
        using stat_prefix_closed[of fs "at @ [x]" q] None by blast
      then have "stat fs (at @ x # q) = None" by simp
      with True x None show ?thesis by simp
    next
      case (Some e)
      have nl: "\<not> is_link tg fs (at @ [x])" using Cons.prems(3) by (auto simp: prefix_def)
      have ih: "walk hops tg fs (at @ [x]) q =
          (if stat fs ((at @ [x]) @ q) \<noteq> None then Found ((at @ [x]) @ q) else NotFound)"
      proof (rule Cons.IH)
        show "''.'' \<notin> set q" "''..'' \<notin> set q" using Cons.prems(1,2) by simp_all
        show "\<forall>q'. prefix q' q \<and> q' \<noteq> [] \<longrightarrow> \<not> is_link tg fs ((at @ [x]) @ q')"
        proof (intro allI impI)
          fix q' assume "prefix q' q \<and> q' \<noteq> []"
          then have "prefix (x # q') (x # q) \<and> x # q' \<noteq> []" by simp
          with Cons.prems(3) have "\<not> is_link tg fs (at @ x # q')" by blast
          then show "\<not> is_link tg fs ((at @ [x]) @ q')" by simp
        qed
        show "stat fs (at @ [x]) \<noteq> None" using Some by simp
      qed
      show ?thesis
      proof (cases e)
        case EOther
        with nl Some have "tg (at @ [x]) = None" by (simp add: is_link_def)
        with True x Some EOther ih show ?thesis by simp
      qed (use True x Some ih in simp_all)
    qed
  qed
qed

lemma fs_status_no_link_on_path:
  assumes "''.'' \<notin> set p" "''..'' \<notin> set p"
    and "\<forall>q. prefix q p \<longrightarrow> \<not> is_link tg fs q"
  shows "fs_status hops tg fs p = Inr (stat fs p)"
proof -
  have "walk hops tg fs [] p = (if stat fs ([] @ p) \<noteq> None then Found ([] @ p) else NotFound)"
    using assms by (intro walk_no_link_on_path) simp_all
  then show ?thesis by (simp add: fs_status_def)
qed

lemma is_link_empty [simp]: "\<not> is_link Map.empty fs p"
  by (simp add: is_link_def)

lemma fs_status_empty:
  "''.'' \<notin> set p \<Longrightarrow> ''..'' \<notin> set p \<Longrightarrow> fs_status hops Map.empty fs p = Inr (stat fs p)"
  by (rule fs_status_no_link_on_path) simp_all

lemma walk_empty:
  "''.'' \<notin> set p \<Longrightarrow> ''..'' \<notin> set p \<Longrightarrow>
   walk hops Map.empty fs [] p = (if stat fs p \<noteq> None then Found p else NotFound)"
  using walk_no_link_on_path[of p Map.empty fs "[]" hops] by simp

lemma iterator_links_empty:
  assumes "''.'' \<notin> set root" "''..'' \<notin> set root"
  shows "recursive_directory_iterator_links hops Map.empty fs root = recursive_directory_iterator fs root"
  using assms
  by (auto simp: recursive_directory_iterator_links_def recursive_directory_iterator_def
      walk_empty stat_def split: option.splits node.splits)

lemma entries_proper:
  assumes "well_formed fs" "proper_names fs" "recursive_directory_iterator fs root = Inr rels"
    and "r \<in> set rels"
  shows "''.'' \<notin> set r \<and> ''..'' \<notin> set r" "r \<noteq> []" "stat fs (root @ r) \<noteq> None"
proof -
  from iterator_set(1)[OF assms(1,3)] assms(4)
  show ne: "r \<noteq> []" and ex: "stat fs (root @ r) \<noteq> None" by auto
  from ex obtain n where "lookup fs (root @ r) = Some n" by (auto simp: stat_def)
  with assms(2) have "''.'' \<notin> set (root @ r) \<and> ''..'' \<notin> set (root @ r)"
    by (rule proper_names_lookup)
  then show "''.'' \<notin> set r \<and> ''..'' \<notin> set r" by simp
qed

lemma count_loop_links_plain:
  "\<forall>r\<in>set rels. fs_status hops tg fs (directory @ r) = Inr (stat fs (directory @ r)) \<Longrightarrow>
   count_loop_links hops tg fs directory rels count = Inr (count_loop fs directory rels count)"
  by (induction rels arbitrary: count)
    (auto simp: is_regular_file_links_def is_directory_links_def is_regular_file_def
      is_directory_def split: option.splits entry.splits)

lemma countFilesAndDirectories_links_empty:
  assumes "well_formed fs" "proper_names fs" "''.'' \<notin> set directory" "''..'' \<notin> set directory"
  shows "countFilesAndDirectories_links hops Map.empty fs directory
           = countFilesAndDirectories fs directory"
proof (cases "recursive_directory_iterator fs directory")
  case (Inl e)
  then show ?thesis
    by (simp add: countFilesAndDirectories_links_def countFilesAndDirectories_def
        iterator_links_empty[OF assms(3,4)])
next
  case (Inr rels)
  have "\<forall>r\<in>set rels. fs_status hops Map.empty fs (directory @ r) = Inr (stat fs (directory @ r))"
  proof
    fix r assume "r \<in> set rels"
    from entries_proper(1)[OF assms(1,2) Inr this] assms(3,4)
    show "fs_status hops Map.empty fs (directory @ r) = Inr (stat fs (directory @ r))"
      by (intro fs_status_empty) simp_all
  qed
  from count_loop_links_plain[OF this] Inr show ?thesis
    by (simp add: countFilesAndDirectories_links_def countFilesAndDirectories_def
        iterator_links_empty[OF assms(3,4)])
qed

lemma collect_stale_links_plain:
  "\<forall>r\<in>set rels. relative hops tg fs (replica @ r) replica = Inr r \<and>
       exists_links hops tg fs (source @ r) = Inr (exists_path fs (source @ r)) \<Longrightarrow>
   collect_stale_links hops tg fs source replica rels acc
     = Inr (collect_stale fs source replica rels acc)"
  by (induction rels arbitrary: acc) simp_all

lemma filesToRemove_links_empty:
  assumes "well_formed fs" "proper_names fs"
    and "''.'' \<notin> set source" "''..'' \<notin> set source"
    and "''.'' \<notin> set replica" "''..'' \<notin> set replica"
  shows "filesToRemove_links hops Map.empty fs source replica =
     (case recursive_directory_iterator fs replica of
        Inl e \<Rightarrow> Inl e
      | Inr rels \<Rightarrow> Inr (collect_stale fs source replica rels []))"
proof (cases "recursive_directory_iterator fs replica")
  case (Inl e)
  then show ?thesis by (simp add: filesToRemove_links_def iterator_links_empty[OF assms(5,6)])
next
  case (Inr rels)
  then have ex: "stat fs replica \<noteq> None" by (auto simp: iterator_Inr_iff stat_def)
  then have w: "walk hops Map.empty fs [] replica = Found replica"
    using assms(5,6) by (simp add: walk_empty)
  have "\<forall>r\<in>set rels. relative hops Map.empty fs (replica @ r) replica = Inr r \<and>
       exists_links hops Map.empty fs (source @ r) = Inr (exists_path fs (source @ r))"
  proof
    fix r assume r: "r \<in> set rels"
    note p = entries_proper[OF assms(1,2) Inr r]
    have "relative hops Map.empty fs (replica @ r) replica = Inr r"
      using p by (intro relative_plain_entry[OF assms(2) w]) simp_all
    moreover have "fs_status hops Map.empty fs (source @ r) = Inr (stat fs (source @ r))"
      using p(1) assms(3,4) by (intro fs_status_empty) simp_all
    then have "exists_links hops Map.empty fs (source @ r) = Inr (exists_path fs (source @ r))"
      by (simp add: exists_links_def exists_path_def split: option.splits)
    ultimately show "relative hops Map.empty fs (replica @ r) replica = Inr r \<and>
       exists_links hops Map.empty fs (source @ r) = Inr (exists_path fs (source @ r))" by simp
  qed
  from collect_stale_links_plain[OF this] Inr show ?thesis
    by (simp add: filesToRemove_links_def iterator_links_empty[OF assms(5,6)])
qed

lemma fs_status_plain_entry:
  assumes "proper_names fs" "walk hops tg fs [] directory = Found c"
    and "stat fs (c @ r) \<noteq> None" "\<not> is_link tg fs (c @ r)"
  shows "fs_status hops tg fs (directory @ r) = Inr (stat fs (c @ r))"
proof -
  have "\<forall>h. walk h tg fs c r = Found (c @ r)"
    using plain_entry_walk[OF assms(1,3,4)] by simp
  from walk_append_plain[OF this assms(2)]
  show ?thesis by (simp add: fs_status_def)
qed

lemma countFilesAndDirectories_links_Inl:
  assumes "well_formed fs" "walk hops tg fs [] directory = Found c" "is_directory fs c"
    and "\<not> resolvable hops tg fs directory c"
  shows "\<exists>e. countFilesAndDirectories_links hops tg fs directory = Inl e"
proof -
  from assms(3) obtain rels where it: "recursive_directory_iterator fs c = Inr rels"
    by (auto simp: is_directory_lookup recursive_directory_iterator_def)
  from assms(2) it have itl: "recursive_directory_iterator_links hops tg fs directory = Inr rels"
    by (auto simp: iterator_links_Inr_iff)
  from assms(4) have "\<exists>r \<in> set rels.
      fs_status hops tg fs (directory @ r) = Inl (StatusError (directory @ r))"
    by (simp add: resolvable_iff[OF assms(1) it])
  from count_loop_links_Inl[OF this] show ?thesis
    by (simp add: countFilesAndDirectories_links_def itl)
qed

section \<open>The structure mirror and the copy loop on a replica without foreign entries\<close>



































section \<open>A whole cycle\<close>










lemma syncDelete_stat_all:
  assumes "well_formed (files s)" "is_directory (files s) replica"
  shows "stat (files (syncDelete source replica s)) q =
           (if \<exists>r. r \<noteq> [] \<and> stat (files s) (replica @ r) \<noteq> None \<and>
                   stat (files s) (source @ r) = None \<and> prefix (replica @ r) q
            then None else stat (files s) q)"
proof -
  from assms(2) obtain rels where it: "recursive_directory_iterator (files s) replica = Inr rels"
    by (auto simp: is_directory_lookup recursive_directory_iterator_def)
  have "(\<exists>r \<in> set rels. stat (files s) (source @ r) = None \<and> prefix (replica @ r) q) \<longleftrightarrow>
        (\<exists>r. r \<noteq> [] \<and> stat (files s) (replica @ r) \<noteq> None \<and>
                   stat (files s) (source @ r) = None \<and> prefix (replica @ r) q)"
    unfolding iterator_set(1)[OF assms(1) it] by auto
  then show ?thesis by (simp only: syncDelete_stat[OF it])
qed






section \<open>Running the loops again\<close>
























section \<open>Convergence\<close>




section \<open>Idempotence\<close>



section \<open>The completion check\<close>



section \<open>A failing copy\<close>

text \<open>
  C4, as stated, fails: the \<^verbatim>\<open>try\<close> of \<^verbatim>\<open>syncCopy\<close> is around the whole loop. Here the
  copy of \<^verbatim>\<open>d/f\<close> throws because the replica holds a file named \<^verbatim>\<open>d\<close>; the regular file
  \<^verbatim>\<open>g\<close>, which the iterator yields next, is never copied.
\<close>

theorem syncCopy_continues_counterexample:
  "\<forall>digest.
     is_regular_file tree_conflict [''src'', ''g''] \<and>
     logged (syncFolders digest [''src''] [''rep'']
               \<lparr>files = tree_conflict, logged = [], changesMade = False\<rparr>)
       = [FilesystemError (CopyFileError [''src'', ''d'', ''f''] [''rep'', ''d'', ''f''])] \<and>
     stat (files (syncFolders digest [''src''] [''rep'']
               \<lparr>files = tree_conflict, logged = [], changesMade = False\<rparr>)) [''rep'', ''g'']
       = None"
  by (simp add: tree_conflict_def stat_def syncFolders_def ensure_replica_def
      syncSubdirectories_def syncSubdirectories_entry_def syncCopy_def syncCopy_entry_def
      syncDelete_def recursive_directory_iterator_def is_regular_file_def is_directory_def
      exists_path_def catch_and_log_def logOperation_def copy_file_def)

text \<open>
  C4, amended. When the copy of one file throws, \<^verbatim>\<open>syncCopy\<close> logs the exception
  and returns: the files the iterator yielded before it stay as they were processed,
  the files after it are not looked at in this cycle. The cycle itself goes on with
  \<^verbatim>\<open>syncDelete\<close>.
\<close>

theorem syncCopy_failure_ends_loop:
  assumes "ensure_replica replica (s0\<lparr>changesMade := False\<rparr>) = Inr sA"
    and "syncSubdirectories source replica sA = s"
    and "recursive_directory_iterator (files s) source = Inr (as @ r # bs)"
    and "for_each (syncCopy_entry digest source replica) as s = (None, s1)"
    and "syncCopy_entry digest source replica r s1 = Inl e"
  shows "syncCopy digest source replica s = logOperation (FilesystemError e) s1 \<and>
         syncFolders digest source replica s0
           = syncDelete source replica (logOperation (FilesystemError e) s1)"
  using assms by (simp add: syncFolders_def syncCopy_def for_each_append catch_and_log_def)

theorem syncCopy_failure_ends_loop_witness:
  "\<forall>digest.
     syncCopy digest [''src''] [''rep''] \<lparr>files = tree_conflict, logged = [], changesMade = False\<rparr>
       = \<lparr>files = tree_conflict,
          logged = [FilesystemError (CopyFileError [''src'', ''d'', ''f''] [''rep'', ''d'', ''f''])],
          changesMade = False\<rparr> \<and>
     syncFolders digest [''src''] [''rep''] \<lparr>files = tree_conflict, logged = [], changesMade = True\<rparr>
       = syncDelete [''src''] [''rep'']
           \<lparr>files = tree_conflict,
            logged = [FilesystemError (CopyFileError [''src'', ''d'', ''f''] [''rep'', ''d'', ''f''])],
            changesMade = False\<rparr>"
proof (intro allI)
  fix digest
  let ?init = "\<lparr>files = tree_conflict, logged = [], changesMade = True\<rparr>"
  let ?s = "\<lparr>files = tree_conflict, logged = [], changesMade = False\<rparr>"
  have a: "ensure_replica [''rep''] (?init\<lparr>changesMade := False\<rparr>) = Inr ?s"
    by (simp add: ensure_replica_def exists_path_def stat_def tree_conflict_def)
  have b: "syncSubdirectories [''src''] [''rep''] ?s = ?s"
    by (simp add: syncSubdirectories_def syncSubdirectories_entry_def
        recursive_directory_iterator_def is_directory_def exists_path_def stat_def
        tree_conflict_def catch_and_log_def)
  have 1: "recursive_directory_iterator (files ?s) [''src'']
             = Inr ([[''d'']] @ [''d'', ''f''] # [[''g'']])"
    by (simp add: recursive_directory_iterator_def tree_conflict_def)
  have 2: "for_each (syncCopy_entry digest [''src''] [''rep'']) [[''d'']] ?s = (None, ?s)"
    by (simp add: syncCopy_entry_def is_regular_file_def stat_def tree_conflict_def)
  have 3: "syncCopy_entry digest [''src''] [''rep''] [''d'', ''f''] ?s
             = Inl (CopyFileError [''src'', ''d'', ''f''] [''rep'', ''d'', ''f''])"
    by (simp add: syncCopy_entry_def is_regular_file_def exists_path_def stat_def
        tree_conflict_def copy_file_def)
  note t = syncCopy_failure_ends_loop[OF a b 1 2 3]
  have t1: "syncCopy digest [''src''] [''rep''] ?s = logOperation (FilesystemError (CopyFileError [''src'', ''d'', ''f''] [''rep'', ''d'', ''f''])) ?s"
    using t by simp
  have t2: "syncFolders digest [''src''] [''rep''] ?init = syncDelete [''src''] [''rep''] (logOperation (FilesystemError (CopyFileError [''src'', ''d'', ''f''] [''rep'', ''d'', ''f''])) ?s)"
    using t by simp
  show "syncCopy digest [''src''] [''rep''] ?s
       = \<lparr>files = tree_conflict,
          logged = [FilesystemError (CopyFileError [''src'', ''d'', ''f''] [''rep'', ''d'', ''f''])],
          changesMade = False\<rparr> \<and>
     syncFolders digest [''src''] [''rep''] ?init
       = syncDelete [''src''] [''rep'']
           \<lparr>files = tree_conflict,
            logged = [FilesystemError (CopyFileError [''src'', ''d'', ''f''] [''rep'', ''d'', ''f''])],
            changesMade = False\<rparr>"
    unfolding t1 t2 by (simp add: logOperation_def)
qed

section \<open>computeFileHash on a path that cannot be opened\<close>

text \<open>
  C5 asks that a path which cannot be read surfaces as an error. \<^verbatim>\<open>computeFileHash\<close>
  does not do that: unlike \<^verbatim>\<open>logOperation\<close>, which tests \<^verbatim>\<open>is_open()\<close> on its stream, it
  never looks at the stream it reads from. For a path that cannot be opened, here one
  that does not exist, the buffer stays empty and the function returns the digest of no
  bytes. That is the digest of the empty file \<^verbatim>\<open>src/e\<close>, so the missing path and the
  file compare equal, and nothing tells the caller that one of them was never read.
\<close>

theorem computeFileHash_missing_path:
  "\<forall>digest.
     stat tree_hash [''rep'', ''missing''] = None \<and>
     stat tree_hash [''src'', ''e''] = Some (EFile []) \<and>
     computeFileHash digest tree_hash [''rep'', ''missing'']
       = computeFileHash digest tree_hash [''src'', ''e'']"
  by (simp add: tree_hash_def stat_def computeFileHash_def read_buffer_def)

section \<open>syncDelete\<close>



section \<open>syncSubdirectories\<close>




section \<open>The source tree is never written\<close>



section \<open>What is counted and what is stale\<close>

text \<open>
  C10, as stated, fails where the claim names symbolic links. The tests of the counting
  loop follow links: of the four entries of the source, the file \<^verbatim>\<open>f\<close> and the link \<^verbatim>\<open>l\<close>
  to it are counted, so the count is 2 where counting the entries that are themselves
  regular files or directories gives 1. \<^verbatim>\<open>fs::exists\<close> follows links too: the source
  has an entry named \<^verbatim>\<open>gone\<close>, a link whose target does not exist, and the replica file
  \<^verbatim>\<open>gone\<close> is put on the list of removals all the same. The replica file \<^verbatim>\<open>pipe\<close>,
  whose source counterpart is a FIFO, is not.
\<close>

theorem count_and_staleness_counterexample:
  "is_link links_sample tree_links [''src'', ''l''] \<and>
   countFilesAndDirectories_links 40 links_sample tree_links [''src''] = Inr 2 \<and>
   countFilesAndDirectories tree_links [''src''] = Inr 1 \<and>
   is_link links_sample tree_links [''src'', ''gone''] \<and>
   stat tree_links [''rep'', ''gone''] = Some (EFile ''old'') \<and>
   filesToRemove_links 40 links_sample tree_links [''src''] [''rep''] = Inr [[''rep'', ''gone'']]"
  by (simp add: is_link_def countFilesAndDirectories_links_def countFilesAndDirectories_def
      recursive_directory_iterator_links_def recursive_directory_iterator_def
      is_regular_file_links_def is_directory_links_def fs_status_def
      filesToRemove_links_def relative_def weakly_canonical_def exists_links_def
      tree_links_def links_sample_def is_regular_file_def is_directory_def stat_def)

text \<open>
  C10, amended. The count is the number of entries below the directory whose status,
  with links followed, is a regular file or a directory; \<^verbatim>\<open>countFilesAndDirectories\<close>
  throws when \<^verbatim>\<open>fs::status\<close> does. For an entry that is not a link this is its own
  kind, so a special file is not counted; a link counts as what it leads to, and a link
  that leads nowhere is not counted. The staleness test of \<^verbatim>\<open>syncDelete\<close> is
  \<^verbatim>\<open>fs::exists\<close> of the source path, with links followed: a replica entry that is not a
  link is put on the list of removals exactly when the source path leads to no entry,
  and is left off it when the source path leads to an entry of any kind. Without links
  the count and the list are those of \<^verbatim>\<open>countFilesAndDirectories\<close> and \<^verbatim>\<open>syncDelete\<close> of
  the program section; there a path is gone after \<^verbatim>\<open>syncDelete\<close> exactly when it is at
  or below a replica entry whose source path did not exist, and has the status it had
  otherwise.
\<close>

theorem count_and_staleness:
  "(well_formed fs \<and> walk hops tg fs [] directory = Found c \<and> is_directory fs c \<longrightarrow>
      (resolvable hops tg fs directory c \<longrightarrow>
         countFilesAndDirectories_links hops tg fs directory =
           Inr (int (card {r. r \<noteq> [] \<and> stat fs (c @ r) \<noteq> None \<and>
                              counted_links hops tg fs directory r}))) \<and>
      (\<not> resolvable hops tg fs directory c \<longrightarrow>
         (\<exists>e. countFilesAndDirectories_links hops tg fs directory = Inl e)) \<and>
      (proper_names fs \<longrightarrow>
         (\<forall>r. stat fs (c @ r) \<noteq> None \<and> \<not> is_link tg fs (c @ r) \<longrightarrow>
              fs_status hops tg fs (directory @ r) = Inr (stat fs (c @ r))))) \<and>
   (well_formed fs \<and> proper_names fs \<and> walk hops tg fs [] replica = Found c' \<and>
    filesToRemove_links hops tg fs source replica = Inr filesToRemove \<longrightarrow>
      (\<forall>r. r \<noteq> [] \<and> stat fs (c' @ r) \<noteq> None \<and> \<not> is_link tg fs (c' @ r) \<longrightarrow>
           (replica @ r \<in> set filesToRemove \<longleftrightarrow>
              fs_status hops tg fs (source @ r) = Inr None))) \<and>
   (well_formed fs \<and> proper_names fs \<and> ''.'' \<notin> set directory \<and> ''..'' \<notin> set directory \<longrightarrow>
      countFilesAndDirectories_links hops Map.empty fs directory
        = countFilesAndDirectories fs directory) \<and>
   (well_formed fs \<and> proper_names fs \<and> ''.'' \<notin> set (source @ replica) \<and>
    ''..'' \<notin> set (source @ replica) \<and> recursive_directory_iterator fs replica = Inr rels \<longrightarrow>
      filesToRemove_links hops Map.empty fs source replica
        = Inr (collect_stale fs source replica rels [])) \<and>
   (well_formed (files s) \<and> is_directory (files s) replica \<longrightarrow>
      (\<forall>q. stat (files (syncDelete source replica s)) q =
         (if \<exists>r. r \<noteq> [] \<and> stat (files s) (replica @ r) \<noteq> None \<and>
                 stat (files s) (source @ r) = None \<and> prefix (replica @ r) q
          then None else stat (files s) q)))"
proof (intro conjI impI allI)
  assume h: "well_formed fs \<and> walk hops tg fs [] directory = Found c \<and> is_directory fs c"
  { assume "resolvable hops tg fs directory c"
    with h show "countFilesAndDirectories_links hops tg fs directory =
           Inr (int (card {r. r \<noteq> [] \<and> stat fs (c @ r) \<noteq> None \<and>
                              counted_links hops tg fs directory r}))"
      by (intro countFilesAndDirectories_links_card) simp_all }
  { assume "\<not> resolvable hops tg fs directory c"
    with h show "\<exists>e. countFilesAndDirectories_links hops tg fs directory = Inl e"
      by (intro countFilesAndDirectories_links_Inl[where c = c]) simp_all }
  { fix r
    assume "proper_names fs" "stat fs (c @ r) \<noteq> None \<and> \<not> is_link tg fs (c @ r)"
    with h show "fs_status hops tg fs (directory @ r) = Inr (stat fs (c @ r))"
      by (intro fs_status_plain_entry) simp_all }
next
  fix r
  assume h: "well_formed fs \<and> proper_names fs \<and> walk hops tg fs [] replica = Found c' \<and>
    filesToRemove_links hops tg fs source replica = Inr filesToRemove"
    and r: "r \<noteq> [] \<and> stat fs (c' @ r) \<noteq> None \<and> \<not> is_link tg fs (c' @ r)"
  then show "replica @ r \<in> set filesToRemove \<longleftrightarrow> fs_status hops tg fs (source @ r) = Inr None"
    by (intro filesToRemove_links_mem[where c = c']) simp_all
next
  assume "well_formed fs \<and> proper_names fs \<and> ''.'' \<notin> set directory \<and> ''..'' \<notin> set directory"
  then show "countFilesAndDirectories_links hops Map.empty fs directory
        = countFilesAndDirectories fs directory"
    by (intro countFilesAndDirectories_links_empty) simp_all
next
  assume h: "well_formed fs \<and> proper_names fs \<and> ''.'' \<notin> set (source @ replica) \<and>
    ''..'' \<notin> set (source @ replica) \<and> recursive_directory_iterator fs replica = Inr rels"
  then have "filesToRemove_links hops Map.empty fs source replica =
     (case recursive_directory_iterator fs replica of
        Inl e \<Rightarrow> Inl e
      | Inr rels \<Rightarrow> Inr (collect_stale fs source replica rels []))"
    by (intro filesToRemove_links_empty) simp_all
  with h show "filesToRemove_links hops Map.empty fs source replica
        = Inr (collect_stale fs source replica rels [])"
    by simp
next
  fix q
  assume "well_formed (files s) \<and> is_directory (files s) replica"
  then show "stat (files (syncDelete source replica s)) q =
         (if \<exists>r. r \<noteq> [] \<and> stat (files s) (replica @ r) \<noteq> None \<and>
                 stat (files s) (source @ r) = None \<and> prefix (replica @ r) q
          then None else stat (files s) q)"
    by (intro syncDelete_stat_all) simp_all
qed

theorem count_and_staleness_witness:
  "well_formed tree_links \<and> proper_names tree_links \<and>
   walk 40 links_sample tree_links [] [''src''] = Found [''src''] \<and>
   is_directory tree_links [''src''] \<and>
   resolvable 40 links_sample tree_links [''src''] [''src''] \<and>
   countFilesAndDirectories_links 40 links_sample tree_links [''src''] = Inr 2 \<and>
   card {r. r \<noteq> [] \<and> stat tree_links ([''src''] @ r) \<noteq> None \<and>
            counted_links 40 links_sample tree_links [''src''] r} = 2 \<and>
   \<not> is_link links_sample tree_links [''src'', ''pipe''] \<and>
   fs_status 40 links_sample tree_links [''src'', ''pipe''] = Inr (Some EOther) \<and>
   walk 40 links_sample tree_links [] [''rep''] = Found [''rep''] \<and>
   filesToRemove_links 40 links_sample tree_links [''src''] [''rep''] = Inr [[''rep'', ''gone'']] \<and>
   fs_status 40 links_sample tree_links [''src'', ''gone''] = Inr None \<and>
   countFilesAndDirectories_links 40 Map.empty tree_links [''src''] = Inr 1 \<and>
   filesToRemove_links 40 Map.empty tree_links [''src''] [''rep''] = Inr [] \<and>
   well_formed tree_loop \<and> walk 40 loop_sample tree_loop [] [''src''] = Found [''src''] \<and>
   is_directory tree_loop [''src''] \<and> \<not> resolvable 40 loop_sample tree_loop [''src''] [''src''] \<and>
   countFilesAndDirectories_links 40 loop_sample tree_loop [''src'']
     = Inl (StatusError [''src'', ''a'']) \<and>
   well_formed tree_stale \<and> is_directory tree_stale [''rep''] \<and>
   stat (files (syncDelete [''src''] [''rep'']
      \<lparr>files = tree_stale, logged = [], changesMade = False\<rparr>)) [''rep'', ''old'', ''deep''] = None \<and>
   stat (files (syncDelete [''src''] [''rep'']
      \<lparr>files = tree_stale, logged = [], changesMade = False\<rparr>)) [''rep'', ''a''] = Some (EFile ''A'')"
proof -
  let ?s = "\<lparr>files = tree_stale, logged = [], changesMade = False\<rparr>"
  note t = count_and_staleness[where fs = tree_links and hops = 40 and tg = links_sample
      and directory = "[''src'']" and c = "[''src'']" and replica = "[''rep'']"
      and c' = "[''rep'']" and source = "[''src'']" and filesToRemove = "[[''rep'', ''gone'']]"
      and rels = "[[''gone''], [''pipe'']]" and s = ?s]
  have wf: "well_formed tree_links" and pn: "proper_names tree_links"
    by (simp_all add: tree_links_def)
  have w1: "walk 40 links_sample tree_links [] [''src''] = Found [''src'']"
    and w2: "walk 40 links_sample tree_links [] [''rep''] = Found [''rep'']"
    by (simp_all add: tree_links_def links_sample_def is_directory_def stat_def)
  have d: "is_directory tree_links [''src'']"
    by (simp add: tree_links_def is_directory_def stat_def)
  have it: "recursive_directory_iterator tree_links [''src'']
      = Inr [[''f''], [''l''], [''gone''], [''pipe'']]"
    by (simp add: recursive_directory_iterator_def tree_links_def)
  have res: "resolvable 40 links_sample tree_links [''src''] [''src'']"
    unfolding resolvable_iff[OF wf it]
    by (simp add: fs_status_def tree_links_def links_sample_def is_directory_def stat_def)
  have cnt: "countFilesAndDirectories_links 40 links_sample tree_links [''src''] = Inr 2"
    by (simp add: countFilesAndDirectories_links_def recursive_directory_iterator_links_def
        is_regular_file_links_def is_directory_links_def fs_status_def
        tree_links_def links_sample_def is_directory_def stat_def)
  have ftr: "filesToRemove_links 40 links_sample tree_links [''src''] [''rep'']
      = Inr [[''rep'', ''gone'']]"
    by (simp add: filesToRemove_links_def recursive_directory_iterator_links_def
        relative_def weakly_canonical_def exists_links_def fs_status_def
        tree_links_def links_sample_def is_directory_def stat_def)
  have pipe: "stat tree_links ([''src''] @ [''pipe'']) = Some EOther"
    "\<not> is_link links_sample tree_links ([''src''] @ [''pipe''])"
    by (simp_all add: is_link_def tree_links_def links_sample_def stat_def)
  have gone: "[''gone''] \<noteq> []" "stat tree_links ([''rep''] @ [''gone'']) \<noteq> None"
    "\<not> is_link links_sample tree_links ([''rep''] @ [''gone''])"
    by (simp_all add: is_link_def tree_links_def links_sample_def stat_def)
  from t wf w1 d res cnt
  have card: "card {r. r \<noteq> [] \<and> stat tree_links ([''src''] @ r) \<noteq> None \<and>
            counted_links 40 links_sample tree_links [''src''] r} = 2"
    by simp
  from t wf w1 d pn
  have "\<forall>r. stat tree_links ([''src''] @ r) \<noteq> None \<and> \<not> is_link links_sample tree_links ([''src''] @ r) \<longrightarrow>
      fs_status 40 links_sample tree_links ([''src''] @ r) = Inr (stat tree_links ([''src''] @ r))"
    by blast
  with pipe have sp: "fs_status 40 links_sample tree_links [''src'', ''pipe''] = Inr (Some EOther)"
    by fastforce
  from t wf pn w2 ftr
  have "\<forall>r. r \<noteq> [] \<and> stat tree_links ([''rep''] @ r) \<noteq> None \<and>
            \<not> is_link links_sample tree_links ([''rep''] @ r) \<longrightarrow>
           ([''rep''] @ r \<in> set [[''rep'', ''gone'']] \<longleftrightarrow>
              fs_status 40 links_sample tree_links ([''src''] @ r) = Inr None)"
    by blast
  with gone have sg: "fs_status 40 links_sample tree_links [''src'', ''gone''] = Inr None"
    by fastforce
  have plain: "countFilesAndDirectories tree_links [''src''] = Inr 1"
    by (simp add: countFilesAndDirectories_def recursive_directory_iterator_def tree_links_def
        is_regular_file_def is_directory_def stat_def)
  have dots: "''.'' \<notin> set [''src''] \<and> ''..'' \<notin> set [''src'']"
    "''.'' \<notin> set ([''src''] @ [''rep'']) \<and> ''..'' \<notin> set ([''src''] @ [''rep''])"
    by simp_all
  from t wf pn dots(1) plain
  have c0: "countFilesAndDirectories_links 40 Map.empty tree_links [''src''] = Inr 1"
    by simp
  have itr: "recursive_directory_iterator tree_links [''rep''] = Inr [[''gone''], [''pipe'']]"
    by (simp add: recursive_directory_iterator_def tree_links_def)
  have col: "collect_stale tree_links [''src''] [''rep''] [[''gone''], [''pipe'']] [] = []"
    by (simp add: exists_path_def tree_links_def stat_def)
  from t wf pn dots(2) itr col
  have f0: "filesToRemove_links 40 Map.empty tree_links [''src''] [''rep''] = Inr []"
    by simp
  note u = count_and_staleness[where fs = tree_loop and hops = 40 and tg = loop_sample
      and directory = "[''src'']" and c = "[''src'']"]
  have lwf: "well_formed tree_loop" by (simp add: tree_loop_def)
  have lw: "walk 40 loop_sample tree_loop [] [''src''] = Found [''src'']"
    by (simp add: tree_loop_def loop_sample_def is_directory_def stat_def)
  have ld: "is_directory tree_loop [''src'']"
    by (simp add: tree_loop_def is_directory_def stat_def)
  have lit: "recursive_directory_iterator tree_loop [''src''] = Inr [[''a'']]"
    by (simp add: recursive_directory_iterator_def tree_loop_def)
  have lst: "fs_status 40 loop_sample tree_loop [''src'', ''a''] = Inl (StatusError [''src'', ''a''])"
    by (simp add: fs_status_def tree_loop_def loop_sample_def is_directory_def stat_def)
  have lres: "\<not> resolvable 40 loop_sample tree_loop [''src''] [''src'']"
    unfolding resolvable_iff[OF lwf lit] using lst by simp
  from u lwf lw ld lres
  have "\<exists>e. countFilesAndDirectories_links 40 loop_sample tree_loop [''src''] = Inl e"
    by blast
  moreover have "countFilesAndDirectories_links 40 loop_sample tree_loop [''src'']
      = Inl (StatusError [''src'', ''a'']) \<or>
      (\<exists>n. countFilesAndDirectories_links 40 loop_sample tree_loop [''src''] = Inr n)"
    using lw lit lst
    by (simp add: countFilesAndDirectories_links_def recursive_directory_iterator_links_def
        recursive_directory_iterator_def is_regular_file_links_def split: option.splits node.splits)
  ultimately have lcnt: "countFilesAndDirectories_links 40 loop_sample tree_loop [''src'']
      = Inl (StatusError [''src'', ''a''])"
    by auto
  have wfs: "well_formed (files ?s)" and ds: "is_directory (files ?s) [''rep'']"
    by (simp_all add: tree_stale_def is_directory_def stat_def)
  from t wfs ds
  have all: "\<forall>q. stat (files (syncDelete [''src''] [''rep''] ?s)) q =
         (if \<exists>r. r \<noteq> [] \<and> stat (files ?s) ([''rep''] @ r) \<noteq> None \<and>
                 stat (files ?s) ([''src''] @ r) = None \<and> prefix ([''rep''] @ r) q
          then None else stat (files ?s) q)"
    by blast
  have "\<exists>r. r \<noteq> [] \<and> stat (files ?s) ([''rep''] @ r) \<noteq> None \<and>
                 stat (files ?s) ([''src''] @ r) = None \<and> prefix ([''rep''] @ r) [''rep'', ''old'', ''deep'']"
    by (rule exI[of _ "[''old'']"]) (simp add: tree_stale_def stat_def)
  with all have deep: "stat (files (syncDelete [''src''] [''rep''] ?s)) [''rep'', ''old'', ''deep''] = None"
    by presburger
  have "\<not> (\<exists>r. r \<noteq> [] \<and> stat (files ?s) ([''rep''] @ r) \<noteq> None \<and>
                 stat (files ?s) ([''src''] @ r) = None \<and> prefix ([''rep''] @ r) [''rep'', ''a''])"
  proof
    assume "\<exists>r. r \<noteq> [] \<and> stat (files ?s) ([''rep''] @ r) \<noteq> None \<and>
                 stat (files ?s) ([''src''] @ r) = None \<and> prefix ([''rep''] @ r) [''rep'', ''a'']"
    then obtain r where r: "r \<noteq> []" "stat (files ?s) ([''src''] @ r) = None"
      "prefix ([''rep''] @ r) [''rep'', ''a'']" by blast
    from r(1,3) have "r = [''a'']" by (cases r) (auto simp: prefix_Cons)
    with r(2) show False by (simp add: tree_stale_def stat_def)
  qed
  moreover from all have "stat (files (syncDelete [''src''] [''rep''] ?s)) [''rep'', ''a''] =
         (if \<exists>r. r \<noteq> [] \<and> stat (files ?s) ([''rep''] @ r) \<noteq> None \<and>
                 stat (files ?s) ([''src''] @ r) = None \<and> prefix ([''rep''] @ r) [''rep'', ''a'']
          then None else stat (files ?s) [''rep'', ''a''])"
    by (rule spec)
  ultimately have "stat (files (syncDelete [''src''] [''rep''] ?s)) [''rep'', ''a''] = stat (files ?s) [''rep'', ''a'']"
    by (simp only: if_False)
  then have a: "stat (files (syncDelete [''src''] [''rep''] ?s)) [''rep'', ''a''] = Some (EFile ''A'')"
    by (simp add: tree_stale_def stat_def)
  from wf pn w1 d res cnt card pipe sp w2 ftr sg c0 f0 lwf lw ld lres lcnt wfs ds deep a
  show ?thesis by simp
qed

end
